theory Spec2Isabelle
  imports Complex_Main "HOL-Library.Sublist"
begin

section \<open>Data model\<close>

text \<open>
  A cell of a table holds a string, a number, a boolean or the null marker. The
  numeric payload is never inspected by the injector, it is only kept or replaced.
\<close>

datatype cell = Str string | Num real | Bool bool | Null

text \<open>
  A table is an ordered collection of named columns; the row index of a cell is its
  position in the column (the index a freshly loaded table has). Column names are
  meant to be unique, as in a table read from a file; the properties that need this
  say so.
\<close>

type_synonym table = "(string \<times> cell list) list"

text \<open>
  The \<open>data\<close> argument is dynamically typed: either the table held in the store
  (\<open>DataFrame\<close>) or some other object, for instance a plain list.
\<close>

datatype pyobj = DataFrame | PyList "cell list"

datatype exn = TypeError | ValueError | ReError

datatype level = DEBUG | INFO | WARNING | ERROR

datatype message =
    ColumnNotFound string
  | Replaced nat string
  | InjectionError exn

text \<open>
  The store the call works on: the table that \<open>data\<close> refers to (mutated in place),
  the number of samples taken from the random source, the cells those samples were
  drawn for (in the order of the draws), and the records handed to the logger.
\<close>

record world =
  frame :: table
  draws :: nat
  sampled :: "(nat \<times> string) list"
  logged :: "(level \<times> message) list"

section \<open>Strings\<close>

text \<open>
  \<open>str.strip()\<close> removes leading and trailing whitespace. For code points below 256
  the whitespace characters are 9..13, 28..32, 133 and 160.
\<close>

definition isspace :: "char \<Rightarrow> bool" where
  "isspace c =
     (let n = (of_char c :: nat)
      in (9 \<le> n \<and> n \<le> 13) \<or> (28 \<le> n \<and> n \<le> 32) \<or> n = 133 \<or> n = 160)"

definition strip :: "string \<Rightarrow> string" where
  "strip s = rev (dropWhile isspace (rev (dropWhile isspace s)))"

section \<open>The pattern matcher of the host library\<close>

text \<open>
  \<open>Series.str.match\<close> compiles the pattern and tests it with \<open>re.match\<close>: the
  pattern has to match at position 0 of the string and may stop anywhere. The injector
  takes the matcher as a parameter \<open>m\<close> (pattern, string, result or exception). For
  concrete patterns a fragment of the library's syntax is modelled here: literal
  characters, \<open>.\<close> (any character but a newline), \<open>^\<close> (start of the string), and
  the quantifiers \<open>*\<close>, \<open>+\<close>, \<open>?\<close> with their lazy forms. A quantifier with nothing
  to repeat is the library's compile error. A pattern that uses any other
  metacharacter is outside the fragment and \<open>re_match\<close> is \<open>None\<close> there.
\<close>

datatype rexp =
    Zero
  | Eps
  | Bos
  | Any
  | Chr char
  | Seq rexp rexp
  | Alt rexp rexp
  | Star rexp

fun nullable :: "bool \<Rightarrow> rexp \<Rightarrow> bool" where
  "nullable b Zero = False"
| "nullable b Eps = True"
| "nullable b Bos = b"
| "nullable b Any = False"
| "nullable b (Chr c) = False"
| "nullable b (Seq r s) = (nullable b r \<and> nullable b s)"
| "nullable b (Alt r s) = (nullable b r \<or> nullable b s)"
| "nullable b (Star r) = True"

fun deriv :: "bool \<Rightarrow> char \<Rightarrow> rexp \<Rightarrow> rexp" where
  "deriv b c Zero = Zero"
| "deriv b c Eps = Zero"
| "deriv b c Bos = Zero"
| "deriv b c Any = (if c = CHR 0x0A then Zero else Eps)"
| "deriv b c (Chr d) = (if c = d then Eps else Zero)"
| "deriv b c (Seq r s) =
     (if nullable b r then Alt (Seq (deriv b c r) s) (deriv b c s)
      else Seq (deriv b c r) s)"
| "deriv b c (Alt r s) = Alt (deriv b c r) (deriv b c s)"
| "deriv b c (Star r) = Seq (deriv b c r) (Star r)"

text \<open>\<open>full b r s\<close>: the whole of \<open>s\<close> is matched by \<open>r\<close>; \<open>b\<close> says whether
  \<open>s\<close> starts at the beginning of the subject string.\<close>

fun full :: "bool \<Rightarrow> rexp \<Rightarrow> string \<Rightarrow> bool" where
  "full b r [] = nullable b r"
| "full b r (c # cs) = full False (deriv b c r) cs"

text \<open>\<open>match_here b r s\<close>: some prefix of \<open>s\<close> is matched by \<open>r\<close>.\<close>

fun match_here :: "bool \<Rightarrow> rexp \<Rightarrow> string \<Rightarrow> bool" where
  "match_here b r [] = nullable b r"
| "match_here b r (c # cs) = (nullable b r \<or> match_here False (deriv b c r) cs)"

definition quantifier :: "char \<Rightarrow> bool" where
  "quantifier c = (c = CHR ''*'' \<or> c = CHR ''+'' \<or> c = CHR ''?'')"

definition unmodelled :: "char \<Rightarrow> bool" where
  "unmodelled c =
     (c = CHR ''$'' \<or> c = CHR ''('' \<or> c = CHR '')'' \<or> c = CHR ''['' \<or> c = CHR ''{''
      \<or> c = CHR ''|'' \<or> c = CHR 0x5C)"

definition atom :: "char \<Rightarrow> rexp" where
  "atom c = (if c = CHR ''^'' then Bos else if c = CHR ''.'' then Any else Chr c)"

definition repeat :: "char \<Rightarrow> rexp \<Rightarrow> rexp" where
  "repeat q r =
     (if q = CHR ''*'' then Star r else if q = CHR ''+'' then Seq r (Star r) else Alt Eps r)"

definition followed :: "rexp \<Rightarrow> (exn + rexp) option \<Rightarrow> (exn + rexp) option" where
  "followed r rest =
     (case rest of
        None \<Rightarrow> None
      | Some (Inl e) \<Rightarrow> Some (Inl e)
      | Some (Inr s) \<Rightarrow> Some (Inr (Seq r s)))"

fun re_parse :: "string \<Rightarrow> (exn + rexp) option" where
  "re_parse [] = Some (Inr Eps)"
| "re_parse [c] =
     (if unmodelled c then None
      else if quantifier c then Some (Inl ReError)
      else Some (Inr (Seq (atom c) Eps)))"
| "re_parse (c # q # cs) =
     (if unmodelled c then None
      else if quantifier c then Some (Inl ReError)
      else if \<not> quantifier q then followed (atom c) (re_parse (q # cs))
      else if c = CHR ''^'' then Some (Inl ReError)
      else (case cs of
              [] \<Rightarrow> Some (Inr (Seq (repeat q (atom c)) Eps))
            | l # cs' \<Rightarrow>
                if l = CHR ''?'' then followed (repeat q (atom c)) (re_parse cs')
                else if l = CHR ''+'' then None
                else followed (repeat q (atom c)) (re_parse (l # cs'))))"

definition re_match :: "string \<Rightarrow> string \<Rightarrow> (exn + bool) option" where
  "re_match pat s =
     (case re_parse pat of
        None \<Rightarrow> None
      | Some (Inl e) \<Rightarrow> Some (Inl e)
      | Some (Inr r) \<Rightarrow> Some (Inr (match_here True r s)))"

definition str_match :: "string \<Rightarrow> string \<Rightarrow> exn + bool" where
  "str_match pat s = the (re_match pat s)"

section \<open>Tables\<close>

definition columns_of :: "table \<Rightarrow> string list" where
  "columns_of t = map fst t"

text \<open>
  \<open>data.at[index, col] = None\<close>: the cell at row \<open>index\<close> of column \<open>col\<close> becomes
  the null marker, whatever the cell held. The index always comes from the column
  itself, so it is in range.
\<close>

fun set_null :: "nat \<Rightarrow> string \<Rightarrow> table \<Rightarrow> table" where
  "set_null i col [] = []"
| "set_null i col ((n, cells) # t) =
     (if n = col then (n, cells[i := Null]) # t else (n, cells) # set_null i col t)"

text \<open>\<open>Series.items()\<close>: the cells of a column paired with their row index.\<close>

definition items :: "cell list \<Rightarrow> (nat \<times> cell) list" where
  "items cells = zip [0..<length cells] cells"

section \<open>The injector\<close>

definition logging :: "level \<Rightarrow> message \<Rightarrow> world \<Rightarrow> world" where
  "logging l msg w = w\<lparr>logged := logged w @ [(l, msg)]\<rparr>"

text \<open>
  \<open>random.random()\<close>: the next sample of the random source \<open>rng\<close>. The store counts
  the draw and records the cell it is made for.
\<close>

definition random_random :: "(nat \<Rightarrow> real) \<Rightarrow> nat \<Rightarrow> string \<Rightarrow> world \<Rightarrow> real \<times> world" where
  "random_random rng index col w =
     (rng (draws w), w\<lparr>draws := Suc (draws w), sampled := sampled w @ [(index, col)]\<rparr>)"

text \<open>The condition \<open>pattern is None or (isinstance(v, str) and match)\<close>.\<close>

definition eligible ::
  "(string \<Rightarrow> string \<Rightarrow> exn + bool) \<Rightarrow> string option \<Rightarrow> cell \<Rightarrow> exn + bool" where
  "eligible m pattern v =
     (case pattern of
        None \<Rightarrow> Inr True
      | Some pat \<Rightarrow> (case v of Str s \<Rightarrow> m pat s | _ \<Rightarrow> Inr False))"

text \<open>The body of the inner loop, for the cell \<open>v\<close> at row \<open>index\<close> of column \<open>col\<close>.\<close>

definition visit_cell ::
  "(string \<Rightarrow> string \<Rightarrow> exn + bool) \<Rightarrow> (nat \<Rightarrow> real) \<Rightarrow> real \<Rightarrow> string option \<Rightarrow> string
     \<Rightarrow> nat \<times> cell \<Rightarrow> world \<Rightarrow> (exn + unit) \<times> world" where
  "visit_cell m rng p pattern col iv w =
     (case eligible m pattern (snd iv) of
        Inl e \<Rightarrow> (Inl e, w)
      | Inr False \<Rightarrow> (Inr (), w)
      | Inr True \<Rightarrow>
          (case random_random rng (fst iv) col w of
             (r, w1) \<Rightarrow>
               if r < p
               then (Inr (), logging DEBUG (Replaced (fst iv) col)
                               (w1\<lparr>frame := set_null (fst iv) col (frame w1)\<rparr>))
               else (Inr (), w1)))"

fun visit_cells ::
  "(string \<Rightarrow> string \<Rightarrow> exn + bool) \<Rightarrow> (nat \<Rightarrow> real) \<Rightarrow> real \<Rightarrow> string option \<Rightarrow> string
     \<Rightarrow> (nat \<times> cell) list \<Rightarrow> world \<Rightarrow> (exn + unit) \<times> world" where
  "visit_cells m rng p pattern col [] w = (Inr (), w)"
| "visit_cells m rng p pattern col (iv # ivs) w =
     (case visit_cell m rng p pattern col iv w of
        (Inl e, w') \<Rightarrow> (Inl e, w')
      | (Inr u, w') \<Rightarrow> visit_cells m rng p pattern col ivs w')"

text \<open>
  The body of the outer loop. A name that is not a column of the table
  (\<open>col not in data.columns\<close>, here a failed lookup) is reported and skipped. Otherwise
  the loop runs over \<open>data[col].items()\<close>, the cells the column has when its turn
  comes.
\<close>

definition visit_column ::
  "(string \<Rightarrow> string \<Rightarrow> exn + bool) \<Rightarrow> (nat \<Rightarrow> real) \<Rightarrow> real \<Rightarrow> string option \<Rightarrow> string
     \<Rightarrow> world \<Rightarrow> (exn + unit) \<times> world" where
  "visit_column m rng p pattern col w =
     (case map_of (frame w) col of
        None \<Rightarrow> (Inr (), logging WARNING (ColumnNotFound col) w)
      | Some cells \<Rightarrow> visit_cells m rng p pattern col (items cells) w)"

fun visit_columns ::
  "(string \<Rightarrow> string \<Rightarrow> exn + bool) \<Rightarrow> (nat \<Rightarrow> real) \<Rightarrow> real \<Rightarrow> string option
     \<Rightarrow> string list \<Rightarrow> world \<Rightarrow> (exn + unit) \<times> world" where
  "visit_columns m rng p pattern [] w = (Inr (), w)"
| "visit_columns m rng p pattern (col # cols) w =
     (case visit_column m rng p pattern col w of
        (Inl e, w') \<Rightarrow> (Inl e, w')
      | (Inr u, w') \<Rightarrow> visit_columns m rng p pattern cols w')"

text \<open>\<open>cols = data.columns if columns is None else [col.strip() for col in columns]\<close>\<close>

definition resolve :: "string list option \<Rightarrow> table \<Rightarrow> string list" where
  "resolve columns t =
     (case columns of None \<Rightarrow> columns_of t | Some cs \<Rightarrow> map strip cs)"

text \<open>
  \<open>inject_nulls\<close>: the two argument checks, then the loops inside \<open>try\<close>; an
  exception of the loops is logged at error level and raised again; otherwise the
  table is returned.
\<close>

definition inject_nulls ::
  "(string \<Rightarrow> string \<Rightarrow> exn + bool) \<Rightarrow> (nat \<Rightarrow> real) \<Rightarrow> pyobj \<Rightarrow> real \<Rightarrow> string option
     \<Rightarrow> string list option \<Rightarrow> world \<Rightarrow> (exn + table) \<times> world" where
  "inject_nulls m rng data p pattern columns w =
     (case data of
        PyList xs \<Rightarrow> (Inl TypeError, w)
      | DataFrame \<Rightarrow>
          if \<not> (0 \<le> p \<and> p \<le> 1) then (Inl ValueError, w)
          else (case visit_columns m rng p pattern (resolve columns (frame w)) w of
                  (Inl e, w') \<Rightarrow> (Inl e, logging ERROR (InjectionError e) w')
                | (Inr u, w') \<Rightarrow> (Inr (frame w'), w')))"

text \<open>A store that holds the table \<open>t\<close> and has seen no sample and no log record.\<close>

definition fresh :: "table \<Rightarrow> world" where
  "fresh t = \<lparr>frame = t, draws = 0, sampled = [], logged = []\<rparr>"

section \<open>The command line's column list\<close>

text \<open>\<open>str.split(sep)\<close> with a one-character separator.\<close>

fun split_on :: "char \<Rightarrow> string \<Rightarrow> string list" where
  "split_on sep [] = [[]]"
| "split_on sep (c # cs) =
     (if c = sep then [] # split_on sep cs
      else (case split_on sep cs of [] \<Rightarrow> [[c]] | x # xs \<Rightarrow> (c # x) # xs))"

text \<open>\<open>columns = args.columns.split(',') if args.columns else None\<close>\<close>

definition cli_columns :: "string option \<Rightarrow> string list option" where
  "cli_columns arg =
     (case arg of
        None \<Rightarrow> None
      | Some s \<Rightarrow> if s = [] then None else Some (split_on CHR '','' s))"

section \<open>Notions used to state the properties\<close>

text \<open>\<open>random.random()\<close> yields samples in the half-open interval from 0 to 1.\<close>

definition unit_interval :: "(nat \<Rightarrow> real) \<Rightarrow> bool" where
  "unit_interval rng = (\<forall>n. 0 \<le> rng n \<and> rng n < 1)"

text \<open>A random source for the examples: every sample is one half.\<close>

definition halves :: "nat \<Rightarrow> real" where
  "halves n = 1 / 2"





text \<open>A supplied name is known when its trimmed form is a column of the table.\<close>

definition known :: "table \<Rightarrow> string \<Rightarrow> bool" where
  "known t c = (strip c \<in> set (columns_of t))"

text \<open>The store without the warnings in its log.\<close>

definition quiet :: "world \<Rightarrow> world" where
  "quiet w = w\<lparr>logged := filter (\<lambda>lm. fst lm \<noteq> WARNING) (logged w)\<rparr>"

section \<open>Strings and the matcher: auxiliary facts\<close>

lemma dropWhile_idem: "dropWhile P (dropWhile P xs) = dropWhile P xs"
  by (induction xs) auto

lemma dropWhile_head: "dropWhile P s = [] \<or> \<not> P (hd (dropWhile P s))"
  by (induction s) auto

lemma strip_head:
  "ys = [] \<or> \<not> P (hd ys) \<Longrightarrow>
   dropWhile P (rev (dropWhile P (rev ys))) = rev (dropWhile P (rev ys))"
proof (cases ys)
  case Nil
  then show ?thesis by simp
next
  case (Cons y ys')
  assume "ys = [] \<or> \<not> P (hd ys)"
  with Cons have ny: "\<not> P y" by simp
  have "\<exists>zs. dropWhile P (rev ys' @ [y]) = zs @ [y]"
    using ny by (simp add: dropWhile_append)
  then obtain zs where "dropWhile P (rev ys) = zs @ [y]" using Cons by auto
  then show ?thesis using ny by simp
qed

lemma strip_idem: "strip (strip s) = strip s"
proof -
  have "dropWhile isspace (rev (dropWhile isspace (rev (dropWhile isspace s))))
        = rev (dropWhile isspace (rev (dropWhile isspace s)))"
    by (rule strip_head) (rule dropWhile_head)
  then show ?thesis by (simp add: strip_def dropWhile_idem)
qed

lemma full_take_match: "n \<le> length s \<Longrightarrow> full b r (take n s) \<Longrightarrow> match_here b r s"
proof (induction s arbitrary: b r n)
  case Nil
  then show ?case by simp
next
  case (Cons c cs)
  then show ?case by (cases n) auto
qed

lemma match_full_take: "match_here b r s \<Longrightarrow> \<exists>n\<le>length s. full b r (take n s)"
proof (induction s arbitrary: b r)
  case Nil
  then show ?case by simp
next
  case (Cons c cs)
  show ?case
  proof (cases "nullable b r")
    case True
    then have "full b r (take 0 (c # cs))" by simp
    then show ?thesis by blast
  next
    case False
    with Cons.prems have "match_here False (deriv b c r) cs" by simp
    from Cons.IH [OF this] obtain n
      where "n \<le> length cs" "full False (deriv b c r) (take n cs)"
      by blast
    then have "Suc n \<le> length (c # cs) \<and> full b r (take (Suc n) (c # cs))" by simp
    then show ?thesis by blast
  qed
qed

lemma match_here_prefix: "match_here b r s = (\<exists>n\<le>length s. full b r (take n s))"
  using full_take_match match_full_take by blast

section \<open>Tables: auxiliary facts\<close>

lemma set_null_names: "map fst (set_null i col t) = map fst t"
  by (induction t) auto




lemma visit_cell_cases:
  obtains
    (raise) e where "eligible m pattern (snd iv) = Inl e"
      "visit_cell m rng p pattern col iv w = (Inl e, w)"
  | (skip) "eligible m pattern (snd iv) = Inr False"
      "visit_cell m rng p pattern col iv w = (Inr (), w)"
  | (keep) "eligible m pattern (snd iv) = Inr True" "\<not> rng (draws w) < p"
      "visit_cell m rng p pattern col iv w =
         (Inr (), w\<lparr>draws := Suc (draws w), sampled := sampled w @ [(fst iv, col)]\<rparr>)"
  | (null) "eligible m pattern (snd iv) = Inr True" "rng (draws w) < p"
      "visit_cell m rng p pattern col iv w =
         (Inr (), w\<lparr>frame := set_null (fst iv) col (frame w), draws := Suc (draws w),
                     sampled := sampled w @ [(fst iv, col)],
                     logged := logged w @ [(DEBUG, Replaced (fst iv) col)]\<rparr>)"
proof (cases "eligible m pattern (snd iv)")
  case (Inl e)
  then show ?thesis using raise by (simp add: visit_cell_def)
next
  case (Inr b)
  show ?thesis
  proof (cases b)
    case False
    with Inr show ?thesis using skip by (simp add: visit_cell_def)
  next
    case True
    with Inr show ?thesis using keep null
      by (cases "rng (draws w) < p") (simp_all add: visit_cell_def random_random_def logging_def)
  qed
qed

lemma visit_cells_inv:
  assumes "visit_cells m rng p pattern col ivs w = (r, w')" "P w"
    "\<And>iv w r w'. iv \<in> set ivs \<Longrightarrow> P w \<Longrightarrow> visit_cell m rng p pattern col iv w = (r, w') \<Longrightarrow> P w'"
  shows "P w'"
  using assms
proof (induction ivs arbitrary: w)
  case Nil
  then show ?case by simp
next
  case (Cons iv ivs)
  obtain r1 w1 where s: "visit_cell m rng p pattern col iv w = (r1, w1)" by force
  have p1: "P w1" using Cons.prems(3) [of iv w r1 w1] Cons.prems(2) s by simp
  show ?case
  proof (cases r1)
    case (Inl e)
    with s Cons.prems(1) have "w' = w1" by simp
    with p1 show ?thesis by simp
  next
    case (Inr u)
    with s Cons.prems(1) have "visit_cells m rng p pattern col ivs w1 = (r, w')" by simp
    then show ?thesis
    proof (rule Cons.IH [OF _ p1])
      fix iv' w r w'
      assume "iv' \<in> set ivs" "P w" "visit_cell m rng p pattern col iv' w = (r, w')"
      then show "P w'" using Cons.prems(3) [of iv' w r w'] by simp
    qed
  qed
qed

lemma visit_column_inv:
  assumes "visit_column m rng p pattern col w = (r, w')" "P w"
    "\<And>iv w r w'. P w \<Longrightarrow> visit_cell m rng p pattern col iv w = (r, w') \<Longrightarrow> P w'"
    "\<And>w. P w \<Longrightarrow> P (logging WARNING (ColumnNotFound col) w)"
  shows "P w'"
proof (cases "map_of (frame w) col")
  case None
  with assms(1) have "w' = logging WARNING (ColumnNotFound col) w"
    by (simp add: visit_column_def)
  then show ?thesis using assms(2,4) by simp
next
  case (Some cells)
  with assms(1) have "visit_cells m rng p pattern col (items cells) w = (r, w')"
    by (simp add: visit_column_def)
  then show ?thesis using assms(2,3) by (rule visit_cells_inv)
qed

lemma visit_columns_inv:
  assumes "visit_columns m rng p pattern cols w = (r, w')" "P w"
    "\<And>col iv w r w'. col \<in> set cols \<Longrightarrow> P w \<Longrightarrow> visit_cell m rng p pattern col iv w = (r, w') \<Longrightarrow> P w'"
    "\<And>col w. col \<in> set cols \<Longrightarrow> P w \<Longrightarrow> P (logging WARNING (ColumnNotFound col) w)"
  shows "P w'"
  using assms
proof (induction cols arbitrary: w)
  case Nil
  then show ?case by simp
next
  case (Cons col cols)
  obtain r1 w1 where s: "visit_column m rng p pattern col w = (r1, w1)" by force
  have p1: "P w1"
    using s Cons.prems(2)
  proof (rule visit_column_inv)
    show "\<And>iv w r w'. P w \<Longrightarrow> visit_cell m rng p pattern col iv w = (r, w') \<Longrightarrow> P w'"
      using Cons.prems(3) [of col] by simp
    show "\<And>w. P w \<Longrightarrow> P (logging WARNING (ColumnNotFound col) w)"
      using Cons.prems(4) [of col] by simp
  qed
  show ?case
  proof (cases r1)
    case (Inl e)
    with s Cons.prems(1) have "w' = w1" by simp
    with p1 show ?thesis by simp
  next
    case (Inr u)
    with s Cons.prems(1) have "visit_columns m rng p pattern cols w1 = (r, w')" by simp
    then show ?thesis
    proof (rule Cons.IH [OF _ p1])
      fix c iv w r w'
      assume "c \<in> set cols" "P w" "visit_cell m rng p pattern c iv w = (r, w')"
      then show "P w'" using Cons.prems(3) [of c w iv r w'] by simp
    next
      fix c w
      assume "c \<in> set cols" "P w"
      then show "P (logging WARNING (ColumnNotFound c) w)" using Cons.prems(4) [of c w] by simp
    qed
  qed
qed

section \<open>The loops: which cells raise, and what a probability of zero does\<close>

lemma eligible_raises:
  "eligible m pattern v = Inl e \<Longrightarrow> \<exists>pat s. pattern = Some pat \<and> v = Str s \<and> m pat s = Inl e"
  by (auto simp: eligible_def split: option.splits cell.splits)

lemma visit_cells_raises:
  "visit_cells m rng p pattern col ivs w = (Inl e, w') \<Longrightarrow>
   \<exists>iv\<in>set ivs. eligible m pattern (snd iv) = Inl e"
proof (induction ivs arbitrary: w)
  case Nil
  then show ?case by simp
next
  case (Cons iv ivs)
  show ?case
  proof (cases rule: visit_cell_cases [of m pattern iv rng p col w])
    case (raise e')
    with Cons.prems show ?thesis by simp
  next
    case skip
    with Cons show ?thesis by simp
  next
    case keep
    with Cons show ?thesis by simp
  next
    case null
    with Cons show ?thesis by simp
  qed
qed

lemma visit_column_raises:
  "visit_column m rng p pattern col w = (Inl e, w') \<Longrightarrow> \<exists>v. eligible m pattern v = Inl e"
  by (cases "map_of (frame w) col") (auto simp: visit_column_def dest: visit_cells_raises)

lemma visit_columns_raises:
  "visit_columns m rng p pattern cols w = (Inl e, w') \<Longrightarrow> \<exists>v. eligible m pattern v = Inl e"
proof (induction cols arbitrary: w)
  case Nil
  then show ?case by simp
next
  case (Cons col cols)
  obtain r1 w1 where s: "visit_column m rng p pattern col w = (r1, w1)" by force
  show ?case
  proof (cases r1)
    case (Inl e')
    with s Cons.prems have "visit_column m rng p pattern col w = (Inl e, w1)" by simp
    then show ?thesis by (rule visit_column_raises)
  next
    case (Inr u)
    with s Cons.prems have "visit_columns m rng p pattern cols w1 = (Inl e, w')" by simp
    then show ?thesis by (rule Cons.IH)
  qed
qed

lemma visit_cell_zero:
  assumes "unit_interval rng" "visit_cell m rng 0 pattern col iv w = (r, w')"
  shows "frame w' = frame w"
proof (cases rule: visit_cell_cases [of m pattern iv rng 0 col w])
  case (raise e)
  with assms(2) show ?thesis by simp
next
  case skip
  with assms(2) show ?thesis by simp
next
  case keep
  with assms(2) show ?thesis by auto
next
  case null
  with assms(1) show ?thesis by (simp add: unit_interval_def not_less [symmetric])
qed

lemma visit_columns_zero:
  assumes "unit_interval rng" "visit_columns m rng 0 pattern cols w = (r, w')"
  shows "frame w' = frame w"
  using assms(2)
proof (rule visit_columns_inv [where P = "\<lambda>x. frame x = frame w"])
  show "frame w = frame w" by simp
next
  fix col iv r and x x' :: world
  assume "frame x = frame w" "visit_cell m rng 0 pattern col iv x = (r, x')"
  then show "frame x' = frame w" using visit_cell_zero [OF assms(1)] by simp
next
  fix col and x :: world
  assume "frame x = frame w"
  then show "frame (logging WARNING (ColumnNotFound col) x) = frame w"
    by (simp add: logging_def)
qed

section \<open>Argument validation\<close>

text \<open>
  C3. The arguments are checked before the loops start: data that is not a table
  raises \<open>TypeError\<close>, and a table with a probability below 0 or above 1 raises
  \<open>ValueError\<close>. In both cases the store after the call is the store before it: no
  cell was written, no sample drawn and nothing logged.
\<close>

theorem inject_nulls_validates_first:
  "inject_nulls m rng (PyList xs) p pattern columns w = (Inl TypeError, w) \<and>
   (p < 0 \<or> 1 < p \<longrightarrow>
      inject_nulls m rng DataFrame p pattern columns w = (Inl ValueError, w))"
  by (auto simp: inject_nulls_def)

theorem inject_nulls_validates_first_witness:
  "((3 / 2 :: real) < 0 \<or> 1 < (3 / 2 :: real)) \<and>
   inject_nulls str_match halves DataFrame (3 / 2) None None (fresh [(''A'', [Num 1, Str ''x''])])
     = (Inl ValueError, fresh [(''A'', [Num 1, Str ''x''])]) \<and>
   inject_nulls str_match halves (PyList [Num 1]) (3 / 2) None None (fresh [])
     = (Inl TypeError, fresh [])"
  using inject_nulls_validates_first
          [of str_match halves "[Num 1]" "3 / 2" None None "fresh []"]
        inject_nulls_validates_first
          [of str_match halves "[]" "3 / 2" None None "fresh [(''A'', [Num 1, Str ''x''])]"]
  by simp

section \<open>An empty column list\<close>

text \<open>
  C10. With a column list that is present but empty, no column is processed: the call
  returns the table as it was, and the store is unchanged, for every valid probability
  and every pattern. Only an absent column list resolves to all columns of the table.
\<close>

theorem inject_nulls_empty_columns:
  "0 \<le> p \<Longrightarrow> p \<le> 1 \<Longrightarrow>
   inject_nulls m rng DataFrame p pattern (Some []) w = (Inr (frame w), w) \<and>
   resolve (Some []) (frame w) = [] \<and>
   resolve None (frame w) = columns_of (frame w)"
  by (simp add: inject_nulls_def resolve_def)

theorem inject_nulls_empty_columns_witness:
  "(0 :: real) \<le> 1 \<and> (1 :: real) \<le> 1 \<and>
   inject_nulls str_match halves DataFrame 1 (Some ''^a'') (Some [])
       (fresh [(''A'', [Str ''apple'', Num 2])])
     = (Inr [(''A'', [Str ''apple'', Num 2])], fresh [(''A'', [Str ''apple'', Num 2])]) \<and>
   resolve None [(''A'', [Str ''apple'', Num 2])] = [''A'']"
  using inject_nulls_empty_columns
          [of 1 str_match halves "Some ''^a''" "fresh [(''A'', [Str ''apple'', Num 2])]"]
  by (simp add: fresh_def columns_of_def)

section \<open>Probability zero\<close>

text \<open>
  C2, as stated, fails for a pattern the matcher rejects: the call raises instead of
  returning. Here the pattern \<open>*\<close> (nothing to repeat) meets a string cell.
\<close>

theorem inject_nulls_zero_probability_counterexample:
  "fst (inject_nulls str_match halves DataFrame 0 (Some ''*'') None (fresh [(''A'', [Str ''x''])]))
     = Inl ReError"
  by (simp add: inject_nulls_def fresh_def resolve_def columns_of_def visit_column_def items_def
      visit_cell_def eligible_def str_match_def re_match_def quantifier_def unmodelled_def)

text \<open>
  C2, amended. With probability 0 no cell is ever changed, whatever the pattern and the
  column selection, whether the call returns or raises. When the call returns, it
  returns the input table; and it does return whenever the pattern is absent or the
  matcher raises on no string. An exception can only be one the matcher raised for the
  pattern.
\<close>

theorem inject_nulls_zero_probability:
  assumes "unit_interval rng"
  shows "frame (snd (inject_nulls m rng DataFrame 0 pattern columns w)) = frame w \<and>
    (case fst (inject_nulls m rng DataFrame 0 pattern columns w) of
       Inr t' \<Rightarrow> t' = frame w
     | Inl e \<Rightarrow> \<exists>pat s. pattern = Some pat \<and> m pat s = Inl e) \<and>
    ((\<forall>pat s. pattern = Some pat \<longrightarrow> (\<exists>b. m pat s = Inr b)) \<longrightarrow>
       fst (inject_nulls m rng DataFrame 0 pattern columns w) = Inr (frame w))"
proof -
  obtain r w' where run: "visit_columns m rng 0 pattern (resolve columns (frame w)) w = (r, w')"
    by force
  have same: "frame w' = frame w"
    using assms run by (rule visit_columns_zero)
  show ?thesis
  proof (cases r)
    case (Inl e)
    with run have "\<exists>v. eligible m pattern v = Inl e" by (simp add: visit_columns_raises)
    then obtain pat s where ps: "pattern = Some pat" "m pat s = Inl e"
      using eligible_raises by blast
    have out: "inject_nulls m rng DataFrame 0 pattern columns w
                 = (Inl e, logging ERROR (InjectionError e) w')"
      using Inl run by (simp add: inject_nulls_def)
    have c1: "frame (snd (inject_nulls m rng DataFrame 0 pattern columns w)) = frame w"
      using out same by (simp add: logging_def)
    have c2: "\<exists>pat s. pattern = Some pat \<and> m pat s = Inl e"
      using ps by blast
    have c3: "\<not> (\<forall>pat s. pattern = Some pat \<longrightarrow> (\<exists>b. m pat s = Inr b))"
      using ps by (metis Inl_Inr_False)
    show ?thesis using c1 c2 c3 by (simp add: out)
  next
    case (Inr u)
    with run same show ?thesis by (simp add: inject_nulls_def)
  qed
qed

theorem inject_nulls_zero_probability_witness:
  "unit_interval halves \<and>
   inject_nulls str_match halves DataFrame 0 (Some ''^a'') (Some [''A''])
       (fresh [(''A'', [Str ''apple'', Num 2])])
     = (Inr [(''A'', [Str ''apple'', Num 2])],
        \<lparr>frame = [(''A'', [Str ''apple'', Num 2])], draws = 1, sampled = [(0, ''A'')],
         logged = []\<rparr>)"
proof -
  have u: "unit_interval halves" by (simp add: unit_interval_def halves_def)
  have "fst (inject_nulls str_match halves DataFrame 0 (Some ''^a'') (Some [''A''])
       (fresh [(''A'', [Str ''apple'', Num 2])])) = Inr [(''A'', [Str ''apple'', Num 2])]"
    using inject_nulls_zero_probability [OF u, of str_match "Some ''^a''" "Some [''A'']"
        "fresh [(''A'', [Str ''apple'', Num 2])]"]
    by (simp add: fresh_def str_match_def re_match_def quantifier_def unmodelled_def
        followed_def atom_def)
  moreover have "snd (inject_nulls str_match halves DataFrame 0 (Some ''^a'') (Some [''A''])
       (fresh [(''A'', [Str ''apple'', Num 2])])) =
        \<lparr>frame = [(''A'', [Str ''apple'', Num 2])], draws = 1, sampled = [(0, ''A'')],
         logged = []\<rparr>"
    by (simp add: inject_nulls_def fresh_def resolve_def strip_def isspace_def visit_column_def
        items_def visit_cell_def eligible_def random_random_def halves_def
        str_match_def re_match_def quantifier_def unmodelled_def followed_def atom_def upt_rec)
  ultimately show ?thesis using u by (simp add: prod_eq_iff)
qed

section \<open>Probability one without a pattern\<close>
















section \<open>Columns outside the selection\<close>

lemma visit_cell_frame:
  assumes "visit_cell m rng p pattern col iv w = (r, w')"
  shows "frame w' = frame w \<or> frame w' = set_null (fst iv) col (frame w)"
proof (cases rule: visit_cell_cases [of m pattern iv rng p col w])
  case (raise e)
  with assms show ?thesis by simp
next
  case skip
  with assms show ?thesis by simp
next
  case keep
  with assms show ?thesis by auto
next
  case null
  with assms show ?thesis by auto
qed




section \<open>Trimming of the supplied names\<close>

lemma resolve_strip: "resolve (Some (map strip cs)) t = resolve (Some cs) t"
  by (simp add: resolve_def strip_idem)

text \<open>
  C9. Every name of a supplied column list is trimmed before it is looked up: the
  resolved names are the trimmed names, so a call behaves exactly as the call with the
  names already trimmed. The name \<open>A\<close> with a blank on each side selects column A:
  nothing is reported as unknown, and with probability 1 column A becomes null.
\<close>

theorem inject_nulls_trims_names:
  "resolve (Some cs) t = map strip cs \<and>
   inject_nulls m rng data p pattern (Some cs) w
     = inject_nulls m rng data p pattern (Some (map strip cs)) w \<and>
   inject_nulls m halves DataFrame 1 None (Some ['' A ''])
       (fresh [(''A'', [Num 1]), (''B'', [Num 2])])
     = (Inr [(''A'', [Null]), (''B'', [Num 2])],
        \<lparr>frame = [(''A'', [Null]), (''B'', [Num 2])], draws = 1, sampled = [(0, ''A'')],
         logged = [(DEBUG, Replaced 0 ''A'')]\<rparr>)"
proof -
  have "inject_nulls m rng data p pattern (Some cs) w
     = inject_nulls m rng data p pattern (Some (map strip cs)) w"
    by (simp only: inject_nulls_def resolve_strip)
  moreover have "strip '' A '' = ''A''"
    by (simp add: strip_def isspace_def)
  then have "inject_nulls m halves DataFrame 1 None (Some ['' A ''])
       (fresh [(''A'', [Num 1]), (''B'', [Num 2])])
     = (Inr [(''A'', [Null]), (''B'', [Num 2])],
        \<lparr>frame = [(''A'', [Null]), (''B'', [Num 2])], draws = 1, sampled = [(0, ''A'')],
         logged = [(DEBUG, Replaced 0 ''A'')]\<rparr>)"
    by (simp add: inject_nulls_def fresh_def resolve_def visit_column_def items_def
        visit_cell_def eligible_def random_random_def logging_def halves_def)
  ultimately show ?thesis by (simp add: resolve_def)
qed

section \<open>Unknown column names\<close>

lemma quiet_eq_iff:
  "quiet a = quiet b \<longleftrightarrow>
     frame a = frame b \<and> draws a = draws b \<and> sampled a = sampled b \<and>
     filter (\<lambda>lm. fst lm \<noteq> WARNING) (logged a) = filter (\<lambda>lm. fst lm \<noteq> WARNING) (logged b)"
  by (cases a, cases b) (auto simp: quiet_def)

lemma quiet_warning: "quiet (logging WARNING msg w) = quiet w"
  by (simp add: quiet_def logging_def)

lemma visit_cell_quiet:
  assumes "quiet a = quiet b"
  shows "fst (visit_cell m rng p pattern col iv a) = fst (visit_cell m rng p pattern col iv b) \<and>
         quiet (snd (visit_cell m rng p pattern col iv a))
           = quiet (snd (visit_cell m rng p pattern col iv b))"
  using assms
  by (auto simp: visit_cell_def random_random_def logging_def quiet_eq_iff
      split: sum.splits bool.splits)

lemma visit_cells_quiet:
  assumes "quiet a = quiet b"
  shows "fst (visit_cells m rng p pattern col ivs a) = fst (visit_cells m rng p pattern col ivs b) \<and>
         quiet (snd (visit_cells m rng p pattern col ivs a))
           = quiet (snd (visit_cells m rng p pattern col ivs b))"
  using assms
proof (induction ivs arbitrary: a b)
  case Nil
  then show ?case by simp
next
  case (Cons iv ivs)
  obtain ra a1 where sa: "visit_cell m rng p pattern col iv a = (ra, a1)" by force
  obtain rb b1 where sb: "visit_cell m rng p pattern col iv b = (rb, b1)" by force
  have e: "ra = rb" "quiet a1 = quiet b1"
    using visit_cell_quiet [OF Cons.prems, of m rng p pattern col iv] sa sb by simp_all
  show ?case
  proof (cases ra)
    case (Inl x)
    then have "rb = Inl x" using e(1) by simp
    with Inl sa sb e(2) show ?thesis by simp
  next
    case (Inr u)
    then have "rb = Inr u" using e(1) by simp
    with Inr sa sb Cons.IH [OF e(2)] show ?thesis by simp
  qed
qed

lemma visit_column_quiet:
  assumes "quiet a = quiet b"
  shows "fst (visit_column m rng p pattern col a) = fst (visit_column m rng p pattern col b) \<and>
         quiet (snd (visit_column m rng p pattern col a))
           = quiet (snd (visit_column m rng p pattern col b))"
proof -
  have f: "frame a = frame b" using assms by (simp add: quiet_eq_iff)
  show ?thesis
  proof (cases "map_of (frame b) col")
    case None
    with f assms show ?thesis by (simp add: visit_column_def quiet_warning)
  next
    case (Some cells)
    with f visit_cells_quiet [OF assms] show ?thesis by (simp add: visit_column_def)
  qed
qed

lemma visit_column_names:
  assumes "visit_column m rng p pattern col w = (r, w')"
  shows "map fst (frame w') = map fst (frame w)"
  using assms
proof (rule visit_column_inv [where P = "\<lambda>x. map fst (frame x) = map fst (frame w)"])
  show "map fst (frame w) = map fst (frame w)" by simp
next
  fix iv r and x x' :: world
  assume "map fst (frame x) = map fst (frame w)" "visit_cell m rng p pattern col iv x = (r, x')"
  then show "map fst (frame x') = map fst (frame w)"
    using visit_cell_frame [of m rng p pattern col iv x r x'] by (auto simp: set_null_names)
next
  fix x :: world
  assume "map fst (frame x) = map fst (frame w)"
  then show "map fst (frame (logging WARNING (ColumnNotFound col) x)) = map fst (frame w)"
    by (simp add: logging_def)
qed

lemma visit_columns_skip_unknown:
  assumes "quiet a = quiet b" "map fst (frame a) = ns"
  shows "fst (visit_columns m rng p pattern cols a)
           = fst (visit_columns m rng p pattern (filter (\<lambda>c. c \<in> set ns) cols) b) \<and>
         quiet (snd (visit_columns m rng p pattern cols a))
           = quiet (snd (visit_columns m rng p pattern (filter (\<lambda>c. c \<in> set ns) cols) b))"
  using assms
proof (induction cols arbitrary: a b)
  case Nil
  then show ?case by simp
next
  case (Cons col cols)
  show ?case
  proof (cases "col \<in> set ns")
    case False
    then have "col \<notin> fst ` set (frame a)"
      using Cons.prems(2) by force
    then have n: "map_of (frame a) col = None"
      by (simp add: map_of_eq_None_iff)
    let ?a1 = "logging WARNING (ColumnNotFound col) a"
    have "quiet ?a1 = quiet b" using Cons.prems(1) by (simp add: quiet_warning)
    moreover have "map fst (frame ?a1) = ns" using Cons.prems(2) by (simp add: logging_def)
    ultimately have
      "fst (visit_columns m rng p pattern cols ?a1)
           = fst (visit_columns m rng p pattern (filter (\<lambda>c. c \<in> set ns) cols) b) \<and>
       quiet (snd (visit_columns m rng p pattern cols ?a1))
           = quiet (snd (visit_columns m rng p pattern (filter (\<lambda>c. c \<in> set ns) cols) b))"
      by (rule Cons.IH)
    then show ?thesis using False n by (simp add: visit_column_def)
  next
    case True
    obtain ra a1 where sa: "visit_column m rng p pattern col a = (ra, a1)" by force
    obtain rb b1 where sb: "visit_column m rng p pattern col b = (rb, b1)" by force
    have e: "ra = rb" "quiet a1 = quiet b1"
      using visit_column_quiet [OF Cons.prems(1), of m rng p pattern col] sa sb by simp_all
    have ns: "map fst (frame a1) = ns"
      using visit_column_names [OF sa] Cons.prems(2) by simp
    show ?thesis
    proof (cases ra)
      case (Inl x)
      then have "rb = Inl x" using e(1) by simp
      with Inl sa sb e(2) True show ?thesis by simp
    next
      case (Inr u)
      then have "rb = Inr u" using e(1) by simp
      with Inr sa sb True Cons.IH [OF e(2) ns] show ?thesis by simp
    qed
  qed
qed

lemma visit_cell_logged:
  assumes "visit_cell m rng p pattern col iv w = (r, w')"
  shows "set (logged w) \<subseteq> set (logged w')"
proof (cases rule: visit_cell_cases [of m pattern iv rng p col w])
  case (raise e)
  with assms show ?thesis by simp
next
  case skip
  with assms show ?thesis by simp
next
  case keep
  with assms show ?thesis by auto
next
  case null
  with assms show ?thesis by auto
qed

lemma visit_columns_logged:
  assumes "visit_columns m rng p pattern cols w = (r, w')"
  shows "set (logged w) \<subseteq> set (logged w')"
  using assms
proof (rule visit_columns_inv [where P = "\<lambda>x. set (logged w) \<subseteq> set (logged x)"])
  show "set (logged w) \<subseteq> set (logged w)" by simp
next
  fix col iv r and x x' :: world
  assume "set (logged w) \<subseteq> set (logged x)" "visit_cell m rng p pattern col iv x = (r, x')"
  then show "set (logged w) \<subseteq> set (logged x')"
    using visit_cell_logged [of m rng p pattern col iv x r x'] by blast
next
  fix col and x :: world
  assume "set (logged w) \<subseteq> set (logged x)"
  then show "set (logged w) \<subseteq> set (logged (logging WARNING (ColumnNotFound col) x))"
    by (auto simp: logging_def)
qed

lemma visit_columns_warns:
  assumes "visit_columns m rng p pattern cols w = (Inr u, w')" "c \<in> set cols"
    "c \<notin> set (map fst (frame w))"
  shows "(WARNING, ColumnNotFound c) \<in> set (logged w')"
  using assms
proof (induction cols arbitrary: w)
  case Nil
  then show ?case by simp
next
  case (Cons col cols)
  obtain r1 w1 where s: "visit_column m rng p pattern col w = (r1, w1)" by force
  with Cons.prems(1) have rest: "visit_columns m rng p pattern cols w1 = (Inr u, w')"
    by (cases r1) simp_all
  have ns: "map fst (frame w1) = map fst (frame w)" using s by (rule visit_column_names)
  show ?case
  proof (cases "c = col")
    case True
    then have "col \<notin> fst ` set (frame w)"
      using Cons.prems(3) by force
    then have "map_of (frame w) col = None"
      by (simp add: map_of_eq_None_iff)
    with s True have "(WARNING, ColumnNotFound c) \<in> set (logged w1)"
      by (auto simp: visit_column_def logging_def)
    then show ?thesis using visit_columns_logged [OF rest] by blast
  next
    case False
    with Cons.prems(2) have "c \<in> set cols" by simp
    then show ?thesis using Cons.IH [OF rest] Cons.prems(3) ns by simp
  qed
qed

lemma resolve_known:
  "resolve (Some (filter (known t) cs)) t
     = filter (\<lambda>c. c \<in> set (map fst t)) (resolve (Some cs) t)"
proof -
  have "known t = (\<lambda>c. strip c \<in> set (map fst t))"
    by (rule ext) (simp add: known_def columns_of_def)
  then show ?thesis by (simp add: resolve_def filter_map comp_def)
qed

text \<open>
  C6. Names of the column list whose trimmed form is not a column of the table do not
  change what the call does: its outcome (the returned table or the exception), the
  table, the samples drawn and every log record other than warnings are those of the
  call on the list without these names. So no exception is due to an unknown name, and
  the other named columns are processed as without it. When the call returns, the log
  holds a warning-level record for each unknown name. For the table with columns A and
  B, the list A, Z, B and probability 1, the call returns A and B entirely null.
\<close>

theorem inject_nulls_unknown_columns:
  "fst (inject_nulls m rng data p pattern (Some cs) w)
     = fst (inject_nulls m rng data p pattern (Some (filter (known (frame w)) cs)) w) \<and>
   quiet (snd (inject_nulls m rng data p pattern (Some cs) w))
     = quiet (snd (inject_nulls m rng data p pattern (Some (filter (known (frame w)) cs)) w)) \<and>
   (\<forall>t'. fst (inject_nulls m rng data p pattern (Some cs) w) = Inr t' \<longrightarrow>
      (\<forall>c\<in>set cs. \<not> known (frame w) c \<longrightarrow>
         (WARNING, ColumnNotFound (strip c))
           \<in> set (logged (snd (inject_nulls m rng data p pattern (Some cs) w))))) \<and>
   fst (inject_nulls m halves DataFrame 1 None (cli_columns (Some ''A,Z,B''))
          (fresh [(''A'', [Num 1, Str ''a'']), (''B'', [Num 2, Str ''b''])]))
     = Inr [(''A'', [Null, Null]), (''B'', [Null, Null])]"
proof -
  let ?cols = "resolve (Some cs) (frame w)"
  let ?kept = "resolve (Some (filter (known (frame w)) cs)) (frame w)"
  obtain ra a' where sa: "visit_columns m rng p pattern ?cols w = (ra, a')" by force
  obtain rb b' where sb: "visit_columns m rng p pattern ?kept w = (rb, b')" by force
  have e: "ra = rb" "quiet a' = quiet b'"
    using visit_columns_skip_unknown [of w w "map fst (frame w)" m rng p pattern ?cols] sa sb
    by (simp_all add: resolve_known)
  then have f: "frame a' = frame b'" by (simp add: quiet_eq_iff)
  have q: "quiet (logging l msg a') = quiet (logging l msg b')" for l msg
    using e(2) by (simp add: quiet_eq_iff logging_def)
  have c1: "fst (inject_nulls m rng data p pattern (Some cs) w)
     = fst (inject_nulls m rng data p pattern (Some (filter (known (frame w)) cs)) w)"
    using sa sb e(1) f by (cases data; cases rb) (simp_all add: inject_nulls_def)
  have c2: "quiet (snd (inject_nulls m rng data p pattern (Some cs) w))
     = quiet (snd (inject_nulls m rng data p pattern (Some (filter (known (frame w)) cs)) w))"
    using sa sb e q by (cases data; cases rb) (simp_all add: inject_nulls_def)
  have c3: "(WARNING, ColumnNotFound (strip c))
           \<in> set (logged (snd (inject_nulls m rng data p pattern (Some cs) w)))"
    if ret: "fst (inject_nulls m rng data p pattern (Some cs) w) = Inr t'"
      and c: "c \<in> set cs" and u: "\<not> known (frame w) c" for t' c
  proof -
    from ret sa have d: "data = DataFrame" "0 \<le> p \<and> p \<le> 1" "ra = Inr ()"
      by (cases data; cases ra; simp add: inject_nulls_def split: if_splits)+
    then have out: "snd (inject_nulls m rng data p pattern (Some cs) w) = a'"
      using sa by (simp add: inject_nulls_def)
    have "strip c \<in> set ?cols" using c by (simp add: resolve_def)
    moreover have "strip c \<notin> set (map fst (frame w))"
      using u by (simp add: known_def columns_of_def)
    ultimately have "(WARNING, ColumnNotFound (strip c)) \<in> set (logged a')"
      using sa d(3) visit_columns_warns [of m rng p pattern ?cols w "()" a' "strip c"] by simp
    then show ?thesis by (simp add: out)
  qed
  have cl: "cli_columns (Some ''A,Z,B'') = Some [''A'', ''Z'', ''B'']"
    by (simp add: cli_columns_def)
  have s: "strip ''A'' = ''A''" "strip ''B'' = ''B''" "strip ''Z'' = ''Z''"
    by (simp_all add: strip_def isspace_def)
  have c4: "fst (inject_nulls m halves DataFrame 1 None (cli_columns (Some ''A,Z,B''))
          (fresh [(''A'', [Num 1, Str ''a'']), (''B'', [Num 2, Str ''b''])]))
     = Inr [(''A'', [Null, Null]), (''B'', [Null, Null])]"
    unfolding cl
    by (simp add: inject_nulls_def fresh_def resolve_def s visit_column_def items_def
        visit_cell_def eligible_def random_random_def logging_def halves_def upt_rec)
  show ?thesis using c1 c2 c3 c4 by blast
qed

theorem inject_nulls_unknown_columns_witness:
  "fst (inject_nulls str_match halves DataFrame 1 None (Some [''A'', ''Z'', ''B''])
          (fresh [(''A'', [Num 1]), (''B'', [Num 2])]))
     = Inr [(''A'', [Null]), (''B'', [Null])] \<and>
   ''Z'' \<in> set [''A'', ''Z'', ''B''] \<and>
   \<not> known (frame (fresh [(''A'', [Num 1]), (''B'', [Num 2])])) ''Z'' \<and>
   (WARNING, ColumnNotFound ''Z'')
     \<in> set (logged (snd (inject_nulls str_match halves DataFrame 1 None (Some [''A'', ''Z'', ''B''])
          (fresh [(''A'', [Num 1]), (''B'', [Num 2])])))) \<and>
   fst (inject_nulls str_match halves DataFrame 1 None (Some [''A'', ''B''])
          (fresh [(''A'', [Num 1]), (''B'', [Num 2])]))
     = Inr [(''A'', [Null]), (''B'', [Null])]"
proof -
  let ?w = "fresh [(''A'', [Num 1]), (''B'', [Num 2])]"
  have s: "strip ''A'' = ''A''" "strip ''B'' = ''B''" "strip ''Z'' = ''Z''"
    by (simp_all add: strip_def isspace_def)
  have r: "fst (inject_nulls str_match halves DataFrame 1 None (Some [''A'', ''Z'', ''B'']) ?w)
     = Inr [(''A'', [Null]), (''B'', [Null])]"
    by (simp add: inject_nulls_def fresh_def resolve_def s visit_column_def items_def
        visit_cell_def eligible_def random_random_def logging_def halves_def)
  have k: "\<not> known (frame ?w) ''Z''" "known (frame ?w) ''A''" "known (frame ?w) ''B''"
    by (simp_all add: known_def s fresh_def columns_of_def)
  have z: "''Z'' \<in> set [''A'', ''Z'', ''B'']" by simp
  note t = inject_nulls_unknown_columns
    [of str_match halves DataFrame 1 None "[''A'', ''Z'', ''B'']" ?w]
  have "(WARNING, ColumnNotFound (strip ''Z''))
     \<in> set (logged (snd (inject_nulls str_match halves DataFrame 1 None
            (Some [''A'', ''Z'', ''B'']) ?w)))"
    using t r z k(1) by blast
  moreover have "fst (inject_nulls str_match halves DataFrame 1 None (Some [''A'', ''B'']) ?w)
     = Inr [(''A'', [Null]), (''B'', [Null])]"
    using t r k by simp
  ultimately show ?thesis using r z k(1) by (simp add: s)
qed

section \<open>Eligibility under a pattern\<close>

lemma str_match_prefix:
  "re_parse pat = Some (Inr r) \<Longrightarrow>
   str_match pat s = Inr (\<exists>n\<le>length s. full True r (take n s))"
  by (simp add: str_match_def re_match_def match_here_prefix)

text \<open>
  C4. With a pattern, a cell is eligible exactly when it holds a string on which the
  matcher answers true; a cell that holds no string is not eligible, and the loop body
  leaves the store as it is (no sample is drawn). For the modelled matcher, a pattern
  that compiles to \<open>r\<close> matches a string exactly when \<open>r\<close> matches some prefix of it,
  from position 0 and of any length: \<open>a\<close> matches \<open>apple\<close> without consuming it, and
  \<open>p\<close> does not match \<open>apple\<close> although it occurs inside. For the column apple,
  banana, avocado, the pattern \<open>^a\<close> and probability 1, apple and avocado become
  null and banana stays.
\<close>

theorem eligible_iff_string_match:
  "(eligible m (Some pat) v = Inr True \<longleftrightarrow> (\<exists>s. v = Str s \<and> m pat s = Inr True)) \<and>
   ((\<forall>s. v \<noteq> Str s) \<longrightarrow>
      eligible m (Some pat) v = Inr False \<and>
      visit_cell m rng p (Some pat) col (i, v) w = (Inr (), w)) \<and>
   (re_parse pat = Some (Inr r) \<longrightarrow>
      str_match pat s = Inr (\<exists>n\<le>length s. full True r (take n s))) \<and>
   str_match ''a'' ''apple'' = Inr True \<and>
   str_match ''p'' ''apple'' = Inr False \<and>
   fst (inject_nulls str_match halves DataFrame 1 (Some ''^a'') None
          (fresh [(''fruit'', [Str ''apple'', Str ''banana'', Str ''avocado''])]))
     = Inr [(''fruit'', [Null, Str ''banana'', Null])]"
proof -
  have c1: "eligible m (Some pat) v = Inr True \<longleftrightarrow> (\<exists>s. v = Str s \<and> m pat s = Inr True)"
    by (cases v) (simp_all add: eligible_def)
  have c2: "eligible m (Some pat) v = Inr False \<and>
      visit_cell m rng p (Some pat) col (i, v) w = (Inr (), w)" if "\<forall>s. v \<noteq> Str s"
    using that by (cases v) (simp_all add: eligible_def visit_cell_def)
  have c3: "str_match pat s = Inr (\<exists>n\<le>length s. full True r (take n s))"
    if "re_parse pat = Some (Inr r)"
    using that by (rule str_match_prefix)
  have c4: "str_match ''a'' ''apple'' = Inr True"
    by (simp add: str_match_def re_match_def atom_def quantifier_def unmodelled_def)
  have c5: "str_match ''p'' ''apple'' = Inr False"
    by (simp add: str_match_def re_match_def atom_def quantifier_def unmodelled_def)
  have c6: "fst (inject_nulls str_match halves DataFrame 1 (Some ''^a'') None
          (fresh [(''fruit'', [Str ''apple'', Str ''banana'', Str ''avocado''])]))
     = Inr [(''fruit'', [Null, Str ''banana'', Null])]"
    by (simp add: inject_nulls_def fresh_def resolve_def columns_of_def visit_column_def
        items_def visit_cell_def eligible_def random_random_def logging_def halves_def
        str_match_def re_match_def atom_def quantifier_def unmodelled_def followed_def upt_rec)
  show ?thesis using c1 c2 c3 c4 c5 c6 by blast
qed

theorem eligible_iff_string_match_witness:
  "(\<forall>s. Num 3 \<noteq> Str s) \<and>
   eligible str_match (Some ''^a'') (Num 3) = Inr False \<and>
   visit_cell str_match halves 1 (Some ''^a'') ''fruit'' (0, Num 3) (fresh [(''fruit'', [Num 3])])
     = (Inr (), fresh [(''fruit'', [Num 3])]) \<and>
   re_parse ''^a'' = Some (Inr (Seq Bos (Seq (Chr CHR ''a'') Eps))) \<and>
   str_match ''^a'' ''apple''
     = Inr (\<exists>n\<le>length ''apple''. full True (Seq Bos (Seq (Chr CHR ''a'') Eps)) (take n ''apple'')) \<and>
   str_match ''^a'' ''apple'' = Inr True \<and>
   eligible str_match (Some ''^a'') (Str ''apple'') = Inr True"
proof -
  have n: "\<forall>s. Num 3 \<noteq> Str s" by simp
  have r: "re_parse ''^a'' = Some (Inr (Seq Bos (Seq (Chr CHR ''a'') Eps)))"
    by (simp add: atom_def quantifier_def unmodelled_def followed_def)
  have a: "str_match ''^a'' ''apple'' = Inr True"
    by (simp add: str_match_def re_match_def atom_def quantifier_def unmodelled_def followed_def)
  note t1 = eligible_iff_string_match
    [of str_match "''^a''" "Num 3" halves 1 "''fruit''" 0 "fresh [(''fruit'', [Num 3])]"
        "Seq Bos (Seq (Chr CHR ''a'') Eps)" "''apple''"]
  note t2 = eligible_iff_string_match
    [of str_match "''^a''" "Str ''apple''" halves 1 "''fruit''" 0 "fresh [(''fruit'', [Num 3])]"
        "Seq Bos (Seq (Chr CHR ''a'') Eps)" "''apple''"]
  have e: "eligible str_match (Some ''^a'') (Str ''apple'') = Inr True"
    using t2 a by blast
  show ?thesis using n r a e t1 by blast
qed

section \<open>Failures inside the loops\<close>







section \<open>The order of the draws\<close>
















end
